theory Spec2Isabelle
  imports Main
begin

unbundle bit_operations_syntax

section \<open>The map converter of \<^verbatim>\<open>convert_map.py\<close>\<close>

text \<open>
  Python integers are unbounded and are modelled as \<open>int\<close>; \<open>val >> z\<close> on a Python
  integer is the floor division by \<open>2 ^ z\<close>, which is \<open>drop_bit z val\<close>, and \<open>&\<close> is the
  two's complement conjunction \<open>AND\<close> of \<open>int\<close>.
\<close>

subsection \<open>Bitmap decoding\<close>

text \<open>
  Lines 107 to 110 of \<^verbatim>\<open>main\<close>, for one value \<open>val\<close>:
  \<^verbatim>\<open>
  blocks = []
  for z in range(9):
      if (val >> z) & 1:
          blocks.append(z)
  \<close>
\<close>

definition decode :: "int \<Rightarrow> nat list" where
  "decode val =
     foldl (\<lambda>blocks z. if (drop_bit z val) AND 1 \<noteq> 0 then blocks @ [z] else blocks)
       [] [0..<9]"

subsection \<open>Strings\<close>

text \<open>
  A text is a \<open>string\<close>; its characters stand for the code points 0 to 255. The string
  methods of Python that the parser calls are modelled on such texts.
\<close>

definition isspace :: "char \<Rightarrow> bool" where
  \<comment> \<open>The characters that \<^verbatim>\<open>str.isspace\<close> accepts, among the code points 0 to 255.\<close>
  "isspace c =
     (let n = (of_char c :: nat)
      in (9 \<le> n \<and> n \<le> 13) \<or> (28 \<le> n \<and> n \<le> 32) \<or> n = 133 \<or> n = 160)"

definition strip_with :: "(char \<Rightarrow> bool) \<Rightarrow> string \<Rightarrow> string" where
  "strip_with p s = rev (dropWhile p (rev (dropWhile p s)))"

definition strip :: "string \<Rightarrow> string" where
  \<comment> \<open>\<^verbatim>\<open>s.strip()\<close>\<close>
  "strip s = strip_with isspace s"

definition strip_chars :: "string \<Rightarrow> string \<Rightarrow> string" where
  \<comment> \<open>\<^verbatim>\<open>s.strip(chars)\<close>\<close>
  "strip_chars chars s = strip_with (\<lambda>c. List.member chars c) s"

definition startswith :: "string \<Rightarrow> string \<Rightarrow> bool" where
  \<comment> \<open>\<^verbatim>\<open>s.startswith(p)\<close>\<close>
  "startswith s p = (take (length p) s = p)"

function split_on :: "char \<Rightarrow> string \<Rightarrow> string list" where
  \<comment> \<open>\<^verbatim>\<open>s.split(sep)\<close> for a separator of one character: the piece before the first
      separator, then the pieces of the text after it; never the empty list.\<close>
  "split_on sep s =
     takeWhile (\<lambda>c. c \<noteq> sep) s #
       (case dropWhile (\<lambda>c. c \<noteq> sep) s of
          [] \<Rightarrow> []
        | c # rest \<Rightarrow> split_on sep rest)"
  by pat_completeness auto
termination
proof (relation "measure (\<lambda>(sep, s). length s)")
  show "wf (measure (\<lambda>(sep, s). length s))"
    by simp
next
  fix sep :: char and s :: string and c rest
  assume "dropWhile (\<lambda>c. c \<noteq> sep) s = c # rest"
  then have "length (c # rest) \<le> length s"
    using length_dropWhile_le [of "\<lambda>c. c \<noteq> sep" s] by simp
  then show "((sep, rest), (sep, s)) \<in> measure (\<lambda>(sep, s). length s)"
    by simp
qed

declare split_on.simps [simp del]

fun split_first :: "string \<Rightarrow> string \<Rightarrow> (string \<times> string) option" where
  \<comment> \<open>The text before and the text after the leftmost occurrence of \<open>pat\<close>.\<close>
  "split_first pat [] = (if pat = [] then Some ([], []) else None)"
| "split_first pat (c # cs) =
     (if startswith (c # cs) pat then Some ([], drop (length pat) (c # cs))
      else map_option (\<lambda>(before, after). (c # before, after)) (split_first pat cs))"

subsection \<open>Integers from text\<close>

definition isdigit :: "char \<Rightarrow> bool" where
  "isdigit c = (48 \<le> (of_char c :: nat) \<and> (of_char c :: nat) \<le> 57)"

definition digit_value :: "char \<Rightarrow> int" where
  "digit_value c = int (of_char c) - 48"

fun int_digits :: "int \<Rightarrow> string \<Rightarrow> int option" where
  \<comment> \<open>The rest of a literal after a digit: digits, each optionally preceded by one underscore.\<close>
  "int_digits acc [] = Some acc"
| "int_digits acc (c # cs) =
     (if isdigit c then int_digits (10 * acc + digit_value c) cs
      else if c = CHR ''_'' then
        (case cs of
           [] \<Rightarrow> None
         | d # ds \<Rightarrow> if isdigit d then int_digits (10 * acc + digit_value d) ds else None)
      else None)"

definition int_unsigned :: "string \<Rightarrow> int option" where
  "int_unsigned s =
     (case s of
        [] \<Rightarrow> None
      | c # cs \<Rightarrow> if isdigit c then int_digits (digit_value c) cs else None)"

definition py_int :: "string \<Rightarrow> int option" where
  \<comment> \<open>\<^verbatim>\<open>int(s)\<close> on a text without surrounding whitespace: an optional sign, then decimal
      digits with single underscores allowed between them; \<open>None\<close> is the \<^verbatim>\<open>ValueError\<close>.
      The interpreter's bound on the number of digits of a literal is left out.\<close>
  "py_int s =
     (case s of
        [] \<Rightarrow> None
      | c # cs \<Rightarrow>
          if c = CHR ''-'' then map_option uminus (int_unsigned cs)
          else if c = CHR ''+'' then int_unsigned cs
          else int_unsigned s)"

subsection \<open>Errors\<close>

datatype error =
    MapNotFound            \<comment> \<open>\<^verbatim>\<open>ValueError("Could not find map array in file")\<close>, line 22\<close>
  | InvalidLiteral string  \<comment> \<open>the \<^verbatim>\<open>ValueError\<close> of \<^verbatim>\<open>int()\<close> at line 36, with its argument\<close>
  | IndexError             \<comment> \<open>\<^verbatim>\<open>heightmap[0]\<close> on an empty list, line 46\<close>
  | ZeroDivisionError      \<comment> \<open>the division by \<^verbatim>\<open>total_cells\<close>, line 62\<close>
  | FileNotFoundError      \<comment> \<open>\<^verbatim>\<open>open(scad_file, "r")\<close> on a missing file, line 15\<close>

subsection \<open>The parser\<close>

text \<open>
  \<^verbatim>\<open>re.search(r"map=\[(.*?)\];", content, re.DOTALL)\<close>: the search takes the leftmost
  position where the literal \<^verbatim>\<open>map=[\<close> is followed, anywhere later, by \<^verbatim>\<open>];\<close>. If that fails
  at the first \<^verbatim>\<open>map=[\<close> it fails at every later one, so the match starts at the first
  \<^verbatim>\<open>map=[\<close>; the lazy group then ends at the first \<^verbatim>\<open>];\<close> after it. The result is
  \<^verbatim>\<open>match.group(1)\<close>, or \<open>None\<close> when there is no match.
\<close>

definition re_search_map :: "string \<Rightarrow> string option" where
  "re_search_map content =
     (case split_first ''map=['' content of
        None \<Rightarrow> None
      | Some (before, rest) \<Rightarrow>
          (case split_first ''];'' rest of
             None \<Rightarrow> None
           | Some (group1, after) \<Rightarrow> Some group1))"

fun numbers_of :: "string list \<Rightarrow> error + int list" where
  \<comment> \<open>\<^verbatim>\<open>[int(x.strip()) for x in ... if x.strip()]\<close>, line 36\<close>
  "numbers_of [] = Inr []"
| "numbers_of (x # xs) =
     (if strip x \<noteq> [] then
        (case py_int (strip x) of
           None \<Rightarrow> Inl (InvalidLiteral (strip x))
         | Some n \<Rightarrow>
             (case numbers_of xs of
                Inl e \<Rightarrow> Inl e
              | Inr ns \<Rightarrow> Inr (n # ns)))
      else numbers_of xs)"

fun parse_lines :: "string list \<Rightarrow> int list list \<Rightarrow> error + int list list" where
  \<comment> \<open>The loop of lines 28 to 37, with the list \<^verbatim>\<open>rows\<close> built so far.\<close>
  "parse_lines [] rows = Inr rows"
| "parse_lines (l # ls) rows =
     (let line = strip l in
      if startswith line ''['' then
        (let numbers_str = strip_chars ''[],'' line in
         if numbers_str \<noteq> [] then
           (case numbers_of (split_on CHR '','' numbers_str) of
              Inl e \<Rightarrow> Inl e
            | Inr numbers \<Rightarrow> parse_lines ls (rows @ [numbers]))
         else parse_lines ls rows)
      else parse_lines ls rows)"

definition parse_scad_text :: "string \<Rightarrow> error + int list list" where
  \<comment> \<open>Lines 20 to 39 of \<^verbatim>\<open>parse_scad_map\<close>, on the text read from the file.\<close>
  "parse_scad_text content =
     (case re_search_map content of
        None \<Rightarrow> Inl MapNotFound
      | Some map_content \<Rightarrow> parse_lines (split_on CHR 0x0A map_content) [])"

type_synonym files = "string \<rightharpoonup> string"

definition parse_scad_map :: "files \<Rightarrow> string \<Rightarrow> error + int list list" where
  \<comment> \<open>\<^verbatim>\<open>parse_scad_map(scad_file)\<close>: \<open>fs\<close> maps a path to the text that reading it returns.\<close>
  "parse_scad_map fs scad_file =
     (case fs scad_file of
        None \<Rightarrow> Inl FileNotFoundError
      | Some content \<Rightarrow> parse_scad_text content)"

subsection \<open>Statistics\<close>

record statistics =
  total_cells :: int
  ground_only :: int
  elevated :: int
  total_blocks :: int

definition count_blocks :: "int list list \<Rightarrow> int" where
  \<comment> \<open>The three nested loops of lines 51 to 57, with the counter \<^verbatim>\<open>total_blocks\<close>.\<close>
  "count_blocks heightmap =
     foldl (\<lambda>total row.
        foldl (\<lambda>total val.
           foldl (\<lambda>total z. if (drop_bit z val) AND 1 \<noteq> 0 then total + 1 else total)
             total [0..<9])
          total row)
       0 heightmap"

definition compute_statistics :: "int list list \<Rightarrow> error + statistics" where
  \<comment> \<open>Lines 46 to 57 of \<^verbatim>\<open>convert_to_json\<close>; \<^verbatim>\<open>heightmap[0]\<close> raises on the empty list.\<close>
  "compute_statistics heightmap =
     (case heightmap of
        [] \<Rightarrow> Inl IndexError
      | row0 # _ \<Rightarrow>
          (let total_cells = int (length heightmap) * int (length row0);
               ground_only = sum_list [1. row \<leftarrow> heightmap, val \<leftarrow> row, val = 0];
               elevated = total_cells - ground_only;
               total_blocks = count_blocks heightmap
           in Inr \<lparr>total_cells = total_cells, ground_only = ground_only,
                   elevated = elevated, total_blocks = total_blocks\<rparr>))"

definition print_statistics :: "statistics \<Rightarrow> error + unit" where
  \<comment> \<open>Lines 59 to 65. The printed text is left out; the two percentages of lines 62 and 64
      divide by \<^verbatim>\<open>total_cells\<close>, which raises when it is 0.\<close>
  "print_statistics st = (if total_cells st = 0 then Inl ZeroDivisionError else Inr ())"

subsection \<open>The document and its serialization\<close>

datatype json =
    JInt int
  | JStr string
  | JList "json list"
  | JDict "(string \<times> json) list"

definition hex_digit :: "nat \<Rightarrow> char" where
  "hex_digit n = ''0123456789abcdef'' ! n"

definition escape_char :: "char \<Rightarrow> string" where
  \<comment> \<open>One character of a string as \<^verbatim>\<open>json\<close> writes it with \<^verbatim>\<open>ensure_ascii\<close>.\<close>
  "escape_char c =
     (if c = CHR 0x22 then [CHR 0x5C, CHR 0x22]
      else if c = CHR 0x5C then [CHR 0x5C, CHR 0x5C]
      else if c = CHR 0x0A then [CHR 0x5C, CHR ''n'']
      else if c = CHR 0x0D then [CHR 0x5C, CHR ''r'']
      else if c = CHR 0x09 then [CHR 0x5C, CHR ''t'']
      else if c = CHR 0x08 then [CHR 0x5C, CHR ''b'']
      else if c = CHR 0x0C then [CHR 0x5C, CHR ''f'']
      else if 32 \<le> (of_char c :: nat) \<and> (of_char c :: nat) \<le> 126 then [c]
      else [CHR 0x5C, CHR ''u'', CHR ''0'', CHR ''0'',
            hex_digit (of_char c div 16), hex_digit (of_char c mod 16)])"

definition encode_string :: "string \<Rightarrow> string" where
  "encode_string s = CHR 0x22 # concat (map escape_char s) @ [CHR 0x22]"

function show_nat :: "nat \<Rightarrow> string" where
  "show_nat n =
     (if n < 10 then [char_of (48 + n)]
      else show_nat (n div 10) @ [char_of (48 + n mod 10)])"
  by pat_completeness auto
termination
  by (relation "measure (\<lambda>n. n)") auto

declare show_nat.simps [simp del]

definition show_int :: "int \<Rightarrow> string" where
  \<comment> \<open>\<^verbatim>\<open>repr\<close> of a Python integer\<close>
  "show_int i = (if i < 0 then CHR ''-'' # show_nat (nat (- i)) else show_nat (nat i))"

definition newline_indent :: "nat \<Rightarrow> string" where
  \<comment> \<open>A line break and the indentation of two spaces for each level.\<close>
  "newline_indent level = CHR 0x0A # replicate (2 * level) CHR '' ''"

fun join :: "'a list \<Rightarrow> 'a list list \<Rightarrow> 'a list" where
  \<comment> \<open>The pieces in order, with the separator between them.\<close>
  "join sep [] = []"
| "join sep [x] = x"
| "join sep (x # y # ys) = x @ sep @ join sep (y # ys)"

fun encode :: "nat \<Rightarrow> json \<Rightarrow> string" where
  \<comment> \<open>The text that \<^verbatim>\<open>json.dump(..., indent=2)\<close> writes for a value at an indentation level.\<close>
  "encode level (JInt i) = show_int i"
| "encode level (JStr s) = encode_string s"
| "encode level (JList vs) =
     (if vs = [] then ''[]''
      else ''['' @ newline_indent (level + 1)
        @ join ('','' @ newline_indent (level + 1)) (map (encode (level + 1)) vs)
        @ newline_indent level @ '']'')"
| "encode level (JDict kvs) =
     (if kvs = [] then ''{}''
      else ''{'' @ newline_indent (level + 1)
        @ join ('','' @ newline_indent (level + 1))
            (map (\<lambda>kv. encode_string (fst kv) @ '': '' @ encode (level + 1) (snd kv)) kvs)
        @ newline_indent level @ ''}'')"

definition json_dumps :: "json \<Rightarrow> string" where
  "json_dumps v = encode 0 v"

definition map_data :: "int list list \<Rightarrow> error + json" where
  \<comment> \<open>Lines 68 to 77: the dictionary, its keys in the order of insertion.\<close>
  "map_data heightmap =
     (case heightmap of
        [] \<Rightarrow> Inl IndexError
      | row0 # _ \<Rightarrow>
          Inr (JDict
            [(''name'', JStr ''Ant Attack Original''),
             (''width'', JInt (int (length row0))),
             (''height'', JInt (int (length heightmap))),
             (''maxLevels'', JInt 9),
             (''heightMap'', JList (map (\<lambda>row. JList (map JInt row)) heightmap)),
             (''blocks'', JList []),
             (''ramps'', JList []),
             (''createdAt'', JStr ''2025-01-01T00:00:00Z'')]))"

subsection \<open>The conversion\<close>

definition write_map_data ::
  "int list list \<Rightarrow> string \<Rightarrow> files \<Rightarrow> (error + unit) \<times> files" where
  \<comment> \<open>Lines 68 to 81 of \<^verbatim>\<open>convert_to_json\<close>: the dictionary is built and written to the
      output file, which replaces what the file held. Opening and writing the file are taken
      to succeed.\<close>
  "write_map_data heightmap output_file fs =
     (case map_data heightmap of
        Inl e \<Rightarrow> (Inl e, fs)
      | Inr doc \<Rightarrow> (Inr (), fs(output_file \<mapsto> json_dumps doc)))"

definition convert_to_json ::
  "int list list \<Rightarrow> string \<Rightarrow> files \<Rightarrow> (error + unit) \<times> files" where
  \<comment> \<open>\<^verbatim>\<open>convert_to_json(heightmap, output_file)\<close>: the result and the files afterwards.
      The statistics are computed and printed first, the file is written last.\<close>
  "convert_to_json heightmap output_file fs =
     (case compute_statistics heightmap of
        Inl e \<Rightarrow> (Inl e, fs)
      | Inr st \<Rightarrow>
          (case print_statistics st of
             Inl e \<Rightarrow> (Inl e, fs)
           | Inr _ \<Rightarrow> write_map_data heightmap output_file fs))"

definition scad_file :: string where
  "scad_file = ''AntAttack3D/map.scad''"

definition output_file :: string where
  "output_file = ''AntAttack3D/ant_attack_original.json''"

definition test_values :: "int list" where
  "test_values = [0, 15, 63, 59, 31]"

definition main :: "files \<Rightarrow> (error + nat list list) \<times> files" where
  \<comment> \<open>\<^verbatim>\<open>main()\<close>: the decoded sample values that it prints at the end, and the files
      afterwards.\<close>
  "main fs =
     (case parse_scad_map fs scad_file of
        Inl e \<Rightarrow> (Inl e, fs)
      | Inr heightmap \<Rightarrow>
          (case convert_to_json heightmap output_file fs of
             (Inl e, fs') \<Rightarrow> (Inl e, fs')
           | (Inr _, fs') \<Rightarrow> (Inr (map decode test_values), fs')))"

subsection \<open>Reading the document back\<close>

text \<open>
  The document is read back as a reader of JSON texts does: the text is cut into tokens, and
  the tokens are parsed into a value. The reader knows integers, strings without escape
  sequences, arrays and objects, which is what the document is made of; it gives \<open>None\<close> on
  any other text.
\<close>

datatype token = LBrace | RBrace | LBracket | RBracket | Comma | Colon | TInt int | TStr string

definition is_ws :: "char \<Rightarrow> bool" where
  "is_ws c = (c = CHR '' '' \<or> c = CHR 0x0A \<or> c = CHR 0x0D \<or> c = CHR 0x09)"

definition plain_char :: "char \<Rightarrow> bool" where
  \<comment> \<open>A character that stands for itself inside a JSON string.\<close>
  "plain_char c =
     (32 \<le> (of_char c :: nat) \<and> (of_char c :: nat) \<le> 126 \<and> c \<noteq> CHR 0x22 \<and> c \<noteq> CHR 0x5C)"

definition read_digits :: "string \<Rightarrow> int" where
  "read_digits ds = foldl (\<lambda>acc d. 10 * acc + digit_value d) 0 ds"

definition canonical :: "string \<Rightarrow> bool" where
  \<comment> \<open>Digits of a JSON number: at least one, and no leading zero before another digit.\<close>
  "canonical ds = (ds \<noteq> [] \<and> (length ds = 1 \<or> hd ds \<noteq> CHR ''0''))"

definition ends_integer :: "string \<Rightarrow> bool" where
  \<comment> \<open>What follows the digits does not continue the number with a fraction or an exponent.\<close>
  "ends_integer s =
     (case s of [] \<Rightarrow> True | c # _ \<Rightarrow> c \<noteq> CHR ''.'' \<and> c \<noteq> CHR ''e'' \<and> c \<noteq> CHR ''E'')"

function tokenize :: "string \<Rightarrow> token list option" where
  "tokenize [] = Some []"
| "tokenize (c # cs) =
     (if is_ws c then tokenize cs
      else if c = CHR ''{'' then map_option (Cons LBrace) (tokenize cs)
      else if c = CHR ''}'' then map_option (Cons RBrace) (tokenize cs)
      else if c = CHR ''['' then map_option (Cons LBracket) (tokenize cs)
      else if c = CHR '']'' then map_option (Cons RBracket) (tokenize cs)
      else if c = CHR '','' then map_option (Cons Comma) (tokenize cs)
      else if c = CHR '':'' then map_option (Cons Colon) (tokenize cs)
      else if c = CHR 0x22 then
        (if list_all plain_char (takeWhile (\<lambda>x. x \<noteq> CHR 0x22) cs)
            \<and> dropWhile (\<lambda>x. x \<noteq> CHR 0x22) cs \<noteq> []
         then map_option (Cons (TStr (takeWhile (\<lambda>x. x \<noteq> CHR 0x22) cs)))
                (tokenize (tl (dropWhile (\<lambda>x. x \<noteq> CHR 0x22) cs)))
         else None)
      else if c = CHR ''-'' then
        (if canonical (takeWhile isdigit cs) \<and> ends_integer (dropWhile isdigit cs)
         then map_option (Cons (TInt (- read_digits (takeWhile isdigit cs))))
                (tokenize (dropWhile isdigit cs))
         else None)
      else if isdigit c then
        (if canonical (c # takeWhile isdigit cs) \<and> ends_integer (dropWhile isdigit cs)
         then map_option (Cons (TInt (read_digits (c # takeWhile isdigit cs))))
                (tokenize (dropWhile isdigit cs))
         else None)
      else None)"
  by pat_completeness auto
termination
proof (relation "measure length")
  show "wf (measure length)"
    by simp
next
  fix c :: char and cs :: string
  have "length (tl (dropWhile (\<lambda>x. x \<noteq> CHR 0x22) cs)) \<le> length cs"
    using length_dropWhile_le [of "\<lambda>x. x \<noteq> CHR 0x22" cs] by simp
  then show "(tl (dropWhile (\<lambda>x. x \<noteq> CHR 0x22) cs), c # cs) \<in> measure length"
    by simp
next
  fix c :: char and cs :: string
  have "length (dropWhile isdigit cs) \<le> length cs"
    by (rule length_dropWhile_le)
  then show "(dropWhile isdigit cs, c # cs) \<in> measure length"
    by simp
next
  fix c :: char and cs :: string
  have "length (dropWhile isdigit cs) \<le> length cs"
    by (rule length_dropWhile_le)
  then show "(dropWhile isdigit cs, c # cs) \<in> measure length"
    by simp
qed simp_all

fun parse_value :: "nat \<Rightarrow> token list \<Rightarrow> (json \<times> token list) option"
  and parse_elements :: "nat \<Rightarrow> token list \<Rightarrow> (json list \<times> token list) option"
  and parse_members :: "nat \<Rightarrow> token list \<Rightarrow> ((string \<times> json) list \<times> token list) option"
  where
  "parse_value 0 ts = None"
| "parse_value (Suc n) ts =
     (case ts of
        TInt i # rest \<Rightarrow> Some (JInt i, rest)
      | TStr s # rest \<Rightarrow> Some (JStr s, rest)
      | LBracket # RBracket # rest \<Rightarrow> Some (JList [], rest)
      | LBracket # rest \<Rightarrow> map_option (\<lambda>(vs, rest'). (JList vs, rest')) (parse_elements n rest)
      | LBrace # RBrace # rest \<Rightarrow> Some (JDict [], rest)
      | LBrace # rest \<Rightarrow> map_option (\<lambda>(kvs, rest'). (JDict kvs, rest')) (parse_members n rest)
      | _ \<Rightarrow> None)"
| "parse_elements 0 ts = None"
| "parse_elements (Suc n) ts =
     (case parse_value n ts of
        None \<Rightarrow> None
      | Some (v, rest) \<Rightarrow>
          (case rest of
             Comma # rest' \<Rightarrow> map_option (\<lambda>(vs, rest''). (v # vs, rest'')) (parse_elements n rest')
           | RBracket # rest' \<Rightarrow> Some ([v], rest')
           | _ \<Rightarrow> None))"
| "parse_members 0 ts = None"
| "parse_members (Suc n) ts =
     (case ts of
        TStr k # Colon # rest0 \<Rightarrow>
          (case parse_value n rest0 of
             None \<Rightarrow> None
           | Some (v, rest) \<Rightarrow>
               (case rest of
                  Comma # rest' \<Rightarrow>
                    map_option (\<lambda>(kvs, rest''). ((k, v) # kvs, rest'')) (parse_members n rest')
                | RBrace # rest' \<Rightarrow> Some ([(k, v)], rest')
                | _ \<Rightarrow> None))
      | _ \<Rightarrow> None)"

definition json_loads :: "string \<Rightarrow> json option" where
  \<comment> \<open>The value of a whole text; the number of tokens bounds the depth of the parse.\<close>
  "json_loads s =
     (case tokenize s of
        None \<Rightarrow> None
      | Some ts \<Rightarrow>
          (case parse_value (length ts) ts of
             Some (v, []) \<Rightarrow> Some v
           | _ \<Rightarrow> None))"

definition int_of_json :: "json \<Rightarrow> int option" where
  "int_of_json v = (case v of JInt i \<Rightarrow> Some i | _ \<Rightarrow> None)"

fun all_some :: "'a option list \<Rightarrow> 'a list option" where
  "all_some [] = Some []"
| "all_some (x # xs) =
     (case x of
        None \<Rightarrow> None
      | Some v \<Rightarrow> (case all_some xs of None \<Rightarrow> None | Some vs \<Rightarrow> Some (v # vs)))"

definition row_of_json :: "json \<Rightarrow> int list option" where
  "row_of_json v = (case v of JList cells \<Rightarrow> all_some (map int_of_json cells) | _ \<Rightarrow> None)"

definition grid_of_json :: "json \<Rightarrow> int list list option" where
  "grid_of_json v = (case v of JList rows \<Rightarrow> all_some (map row_of_json rows) | _ \<Rightarrow> None)"

definition read_height_map :: "string \<Rightarrow> int list list option" where
  \<comment> \<open>The grid under the key \<open>heightMap\<close> of a document.\<close>
  "read_height_map text =
     (case json_loads text of
        Some (JDict members) \<Rightarrow>
          (case map_of members ''heightMap'' of
             None \<Rightarrow> None
           | Some v \<Rightarrow> grid_of_json v)
      | _ \<Rightarrow> None)"

subsection \<open>The tokens of a value\<close>

fun toks :: "json \<Rightarrow> token list" where
  "toks (JInt i) = [TInt i]"
| "toks (JStr s) = [TStr s]"
| "toks (JList vs) = LBracket # join [Comma] (map toks vs) @ [RBracket]"
| "toks (JDict kvs) =
     LBrace # join [Comma] (map (\<lambda>kv. TStr (fst kv) # Colon # toks (snd kv)) kvs) @ [RBrace]"

fun plain_strings :: "json \<Rightarrow> bool" where
  \<comment> \<open>Every string and key of the value is written without escape sequences.\<close>
  "plain_strings (JInt i) = True"
| "plain_strings (JStr s) = list_all plain_char s"
| "plain_strings (JList vs) = list_all plain_strings vs"
| "plain_strings (JDict kvs) =
     list_all (\<lambda>kv. list_all plain_char (fst kv) \<and> plain_strings (snd kv)) kvs"

fun depth :: "json \<Rightarrow> nat"
  and depth_list :: "json list \<Rightarrow> nat"
  and depth_members :: "(string \<times> json) list \<Rightarrow> nat" where
  \<comment> \<open>How deep the parser's recursion goes on the tokens of a value.\<close>
  "depth (JInt i) = 1"
| "depth (JStr s) = 1"
| "depth (JList vs) = Suc (depth_list vs)"
| "depth (JDict kvs) = Suc (depth_members kvs)"
| "depth_list [] = 0"
| "depth_list (v # vs) = Suc (max (depth v) (depth_list vs))"
| "depth_members [] = 0"
| "depth_members (kv # kvs) = Suc (max (depth (snd kv)) (depth_members kvs))"

definition follows_value :: "string \<Rightarrow> bool" where
  \<comment> \<open>A text that can follow a value: it does not go on with a digit, a fraction or an
      exponent.\<close>
  "follows_value s = (case s of [] \<Rightarrow> True | c # _ \<Rightarrow> \<not> isdigit c \<and> ends_integer s)"

subsection \<open>The parser as the specification describes it\<close>

text \<open>
  The specification describes the parser by what becomes of each line of the span between the
  markers: a line is a data row iff, trimmed, it starts with an opening bracket; a data row
  loses its leading and trailing brackets and commas, is split at the commas, its tokens are
  trimmed, the empty ones dropped and the others read as integers; the rows are collected in
  the order of the lines. The first token that is no integer fails the whole conversion.
\<close>

fun collect :: "('e + 'a) list \<Rightarrow> 'e + 'a list" where
  \<comment> \<open>All the results in order, or the first failure.\<close>
  "collect [] = Inr []"
| "collect (x # xs) =
     (case x of
        Inl e \<Rightarrow> Inl e
      | Inr v \<Rightarrow> (case collect xs of Inl e \<Rightarrow> Inl e | Inr vs \<Rightarrow> Inr (v # vs)))"

definition spec_data_row :: "string \<Rightarrow> bool" where
  "spec_data_row line = startswith (strip line) ''[''"

definition spec_tokens :: "string \<Rightarrow> string list" where
  "spec_tokens line =
     filter (\<lambda>t. t \<noteq> []) (map strip (split_on CHR '','' (strip_chars ''[],'' (strip line))))"

definition spec_token_value :: "string \<Rightarrow> error + int" where
  "spec_token_value t = (case py_int t of None \<Rightarrow> Inl (InvalidLiteral t) | Some n \<Rightarrow> Inr n)"

definition spec_row :: "string \<Rightarrow> error + int list" where
  "spec_row line = collect (map spec_token_value (spec_tokens line))"

definition spec_parse :: "string \<Rightarrow> error + int list list" where
  \<comment> \<open>Every data row of the span becomes a row of the grid.\<close>
  "spec_parse content =
     (case re_search_map content of
        None \<Rightarrow> Inl MapNotFound
      | Some span \<Rightarrow> collect (map spec_row (filter spec_data_row (split_on CHR 0x0A span))))"

definition kept_row :: "string \<Rightarrow> bool" where
  \<comment> \<open>The data rows that the code keeps: those with text left between the brackets.\<close>
  "kept_row line = (spec_data_row line \<and> strip_chars ''[],'' (strip line) \<noteq> [])"

definition occurs :: "string \<Rightarrow> string \<Rightarrow> bool" where
  \<comment> \<open>\<open>pat\<close> occurs somewhere in \<open>s\<close>.\<close>
  "occurs pat s = (split_first pat s \<noteq> None)"

subsection \<open>Timestamps\<close>

definition iso8601_utc :: "string \<Rightarrow> bool" where
  \<comment> \<open>The ISO 8601 form \<^verbatim>\<open>YYYY-MM-DDThh:mm:ssZ\<close>.\<close>
  "iso8601_utc s =
     (length s = 20
      \<and> list_all (\<lambda>i. isdigit (s ! i)) [0, 1, 2, 3, 5, 6, 8, 9, 11, 12, 14, 15, 17, 18]
      \<and> s ! 4 = CHR ''-'' \<and> s ! 7 = CHR ''-'' \<and> s ! 10 = CHR ''T''
      \<and> s ! 13 = CHR '':'' \<and> s ! 16 = CHR '':'' \<and> s ! 19 = CHR ''Z'')"

subsection \<open>The invariants of a height grid\<close>

definition valid_codes :: "int list list \<Rightarrow> bool" where
  "valid_codes grid = list_all (list_all (\<lambda>v. 0 \<le> v \<and> v \<le> 511)) grid"

definition rectangular :: "int list list \<Rightarrow> bool" where
  "rectangular grid =
     (case grid of [] \<Rightarrow> True | row0 # rows \<Rightarrow> list_all (\<lambda>row. length row = length row0) rows)"

subsection \<open>Facts about the decoder\<close>

lemma foldl_append_if:
  "foldl (\<lambda>acc z. if P z then acc @ [z] else acc) acc zs = acc @ filter P zs"
  by (induction zs arbitrary: acc) simp_all

lemma test_bit_iff: "((drop_bit z (val::int)) AND 1 \<noteq> 0) = bit val z"
  by (simp add: and_one_eq bit_iff_odd_drop_bit odd_iff_mod_2_eq_one)

lemma decode_filter: "decode val = filter (bit val) [0..<9]"
  unfolding decode_def test_bit_iff by (simp only: foldl_append_if append_Nil)

text \<open>
  Claim C1. For every integer \<open>c\<close> (in particular every cell code in 0..511), the decoder
  returns the positions \<open>z\<close> in 0..8 whose bit is set in \<open>c\<close>, in ascending order; it looks at
  the nine low bits only; and it gives the stated results at 0, 511, 15, 63 and 59.
\<close>

theorem decode_correct:
  "decode c = filter (bit c) [0..<9]
   \<and> sorted_wrt (<) (decode c)
   \<and> set (decode c) = {z. z \<le> 8 \<and> bit c z}
   \<and> decode c = decode (take_bit 9 c)
   \<and> decode 0 = []
   \<and> decode 511 = [0, 1, 2, 3, 4, 5, 6, 7, 8]
   \<and> decode 15 = [0, 1, 2, 3]
   \<and> decode 63 = [0, 1, 2, 3, 4, 5]
   \<and> decode 59 = [0, 1, 3, 4, 5]"
proof -
  have sorted: "sorted_wrt (<) (decode c)"
    unfolding decode_filter by (rule sorted_wrt_filter) simp
  have members: "set (decode c) = {z. z \<le> 8 \<and> bit c z}"
    unfolding decode_filter by auto
  have low: "decode c = decode (take_bit 9 c)"
    unfolding decode_filter by (rule filter_cong) (simp_all add: bit_take_bit_iff)
  have v0: "decode 0 = []"
    unfolding decode_filter by simp
  have v511: "decode 511 = [0, 1, 2, 3, 4, 5, 6, 7, 8]"
    unfolding decode_def by code_simp
  have v15: "decode 15 = [0, 1, 2, 3]"
    unfolding decode_def by code_simp
  have v63: "decode 63 = [0, 1, 2, 3, 4, 5]"
    unfolding decode_def by code_simp
  have v59: "decode 59 = [0, 1, 3, 4, 5]"
    unfolding decode_def by code_simp
  from decode_filter sorted members low v0 v511 v15 v63 v59 show ?thesis
    by blast
qed

subsection \<open>Facts about searching a text\<close>

lemma startswith_append: "startswith (p @ s) p"
  by (simp add: startswith_def)

lemma startswith_decomp: "startswith s p \<Longrightarrow> s = p @ drop (length p) s"
  unfolding startswith_def by (metis append_take_drop_id)

lemma split_first_startswith:
  "startswith s pat \<Longrightarrow> pat \<noteq> [] \<Longrightarrow> split_first pat s = Some ([], drop (length pat) s)"
  by (cases s) (auto simp: startswith_def)

lemma split_first_Some: "split_first pat s = Some (a, b) \<Longrightarrow> s = a @ pat @ b"
proof (induction s arbitrary: a b)
  case Nil
  then show ?case by (simp split: if_splits)
next
  case (Cons c cs)
  show ?case
  proof (cases "startswith (c # cs) pat")
    case True
    with Cons.prems have "a = []" "b = drop (length pat) (c # cs)" by simp_all
    with startswith_decomp [OF True] show ?thesis by simp
  next
    case False
    with Cons.prems obtain a' where "split_first pat cs = Some (a', b)" "a = c # a'"
      by (auto split: prod.splits)
    with Cons.IH show ?thesis by simp
  qed
qed

lemma split_first_None_iff: "(split_first pat s = None) = (\<not> (\<exists>a b. s = a @ pat @ b))"
proof (induction s)
  case Nil
  then show ?case by auto
next
  case (Cons c cs)
  show ?case
  proof (cases "startswith (c # cs) pat")
    case True
    then have "c # cs = [] @ pat @ drop (length pat) (c # cs)"
      using startswith_decomp by fastforce
    then have "\<exists>a b. c # cs = a @ pat @ b" by blast
    with True show ?thesis by simp
  next
    case False
    have "(\<exists>a b. c # cs = a @ pat @ b) = (\<exists>a b. cs = a @ pat @ b)"
    proof
      assume "\<exists>a b. c # cs = a @ pat @ b"
      then obtain a b where ab: "c # cs = a @ pat @ b" by blast
      show "\<exists>a b. cs = a @ pat @ b"
      proof (cases a)
        case Nil
        with ab have "startswith (c # cs) pat" by (simp add: startswith_append)
        with False show ?thesis by simp
      next
        case (Cons x a')
        with ab have "cs = a' @ pat @ b" by simp
        then show ?thesis by blast
      qed
    next
      assume "\<exists>a b. cs = a @ pat @ b"
      then obtain a b where "cs = a @ pat @ b" by blast
      then have "c # cs = (c # a) @ pat @ b" by simp
      then show "\<exists>a b. c # cs = a @ pat @ b" by blast
    qed
    with False Cons.IH show ?thesis by simp
  qed
qed

lemma split_first_leftmost:
  "split_first pat s = Some (a, b) \<Longrightarrow> s = a' @ pat @ b' \<Longrightarrow> length a \<le> length a'"
proof (induction s arbitrary: a b a')
  case Nil
  then show ?case by (simp split: if_splits)
next
  case (Cons c cs)
  show ?case
  proof (cases "startswith (c # cs) pat")
    case True
    with Cons.prems(1) have "a = []" by simp
    then show ?thesis by simp
  next
    case False
    with Cons.prems(1) obtain a0 where a0: "split_first pat cs = Some (a0, b)" "a = c # a0"
      by (auto split: prod.splits)
    show ?thesis
    proof (cases a')
      case Nil
      with Cons.prems(2) have "startswith (c # cs) pat" by (simp add: startswith_append)
      with False show ?thesis by simp
    next
      case (Cons x a1)
      with Cons.prems(2) have "cs = a1 @ pat @ b'" by simp
      from Cons.IH [OF a0(1) this] a0(2) Cons show ?thesis by simp
    qed
  qed
qed

lemma split_first_at:
  assumes "\<not> occurs pat (a @ butlast pat)" and "pat \<noteq> []"
  shows "split_first pat (a @ pat @ b) = Some (a, b)"
  using assms(1)
proof (induction a)
  case Nil
  show ?case
    using split_first_startswith [OF startswith_append assms(2), of b] by simp
next
  case (Cons c a)
  have len: "length pat \<le> length (c # a @ butlast pat)"
    using assms(2) by (simp add: Suc_leI length_greater_0_conv)
  have ns: "\<not> startswith (c # a @ butlast pat) pat"
    using Cons.prems by (auto simp: occurs_def)
  have take_eq: "take (length pat) (c # a @ pat @ b) = take (length pat) (c # a @ butlast pat)"
  proof -
    have "c # a @ pat @ b = (c # a @ butlast pat) @ (last pat # b)"
      using assms(2) by (simp add: append_butlast_last_id [symmetric] del: append_butlast_last_id) 
    then show ?thesis using len by (metis take_append diff_is_0_eq take_0 append_Nil2)
  qed
  have ns': "\<not> startswith (c # a @ pat @ b) pat"
    using ns take_eq by (simp add: startswith_def)
  have "\<not> occurs pat (a @ butlast pat)"
    using Cons.prems ns by (auto simp: occurs_def)
  from Cons.IH [OF this] ns' show ?case by simp
qed

subsection \<open>Facts about the parser\<close>

lemma re_search_map_Some:
  assumes "re_search_map content = Some body"
  shows "\<exists>pre post. content = pre @ ''map=['' @ body @ ''];'' @ post"
proof -
  from assms obtain pre rest where 1: "split_first ''map=['' content = Some (pre, rest)"
    by (auto simp: re_search_map_def split: option.splits)
  with assms obtain post where 2: "split_first ''];'' rest = Some (body, post)"
    by (auto simp: re_search_map_def split: option.splits)
  from split_first_Some [OF 1] split_first_Some [OF 2]
  have "content = pre @ ''map=['' @ body @ ''];'' @ post" by simp
  then show ?thesis by blast
qed

lemma re_search_map_None_iff:
  "(re_search_map content = None) =
     (\<not> (\<exists>pre body post. content = pre @ ''map=['' @ body @ ''];'' @ post))"
proof
  assume none: "re_search_map content = None"
  show "\<not> (\<exists>pre body post. content = pre @ ''map=['' @ body @ ''];'' @ post)"
  proof
    assume "\<exists>pre body post. content = pre @ ''map=['' @ body @ ''];'' @ post"
    then obtain pre body post where c: "content = pre @ ''map=['' @ body @ ''];'' @ post"
      by blast
    then have "split_first ''map=['' content \<noteq> None"
      using split_first_None_iff [of "''map=[''" content] by blast
    then obtain a rest where 1: "split_first ''map=['' content = Some (a, rest)"
      by auto
    have le: "length a \<le> length pre"
      by (rule split_first_leftmost [OF 1 c])
    from split_first_Some [OF 1] c
    have "(a @ ''map=['') @ rest = (pre @ ''map=['') @ (body @ ''];'' @ post)"
      by simp
    then obtain us where
      "(a @ ''map=['' = (pre @ ''map=['') @ us \<and> us @ rest = body @ ''];'' @ post)
       \<or> ((a @ ''map=['') @ us = pre @ ''map=['' \<and> rest = us @ body @ ''];'' @ post)"
      unfolding append_eq_append_conv2 by blast
    then have "\<exists>u. rest = u @ ''];'' @ post"
    proof
      assume h: "a @ ''map=['' = (pre @ ''map=['') @ us \<and> us @ rest = body @ ''];'' @ post"
      then have "length (a @ ''map=['') = length ((pre @ ''map=['') @ us)" by simp
      with le have "us = []" by simp
      with h show ?thesis by auto
    next
      assume "(a @ ''map=['') @ us = pre @ ''map=['' \<and> rest = us @ body @ ''];'' @ post"
      then have "rest = (us @ body) @ ''];'' @ post" by simp
      then show ?thesis by blast
    qed
    then have "split_first ''];'' rest \<noteq> None"
      using split_first_None_iff [of "''];''" rest] by blast
    with 1 have "re_search_map content \<noteq> None"
      by (auto simp: re_search_map_def)
    with none show False by simp
  qed
next
  assume no: "\<not> (\<exists>pre body post. content = pre @ ''map=['' @ body @ ''];'' @ post)"
  show "re_search_map content = None"
  proof (rule ccontr)
    assume "re_search_map content \<noteq> None"
    then obtain body where "re_search_map content = Some body" by auto
    from re_search_map_Some [OF this] no show False by blast
  qed
qed

lemma re_search_map_at:
  assumes "\<not> occurs ''map=['' (pre @ ''map='')" and "\<not> occurs ''];'' (body @ '']'')"
  shows "re_search_map (pre @ ''map=['' @ body @ ''];'' @ post) = Some body"
proof -
  have 1: "split_first ''map=['' (pre @ ''map=['' @ body @ ''];'' @ post)
             = Some (pre, body @ ''];'' @ post)"
    by (rule split_first_at) (use assms(1) in simp_all)
  have 2: "split_first ''];'' (body @ ''];'' @ post) = Some (body, post)"
    by (rule split_first_at) (use assms(2) in simp_all)
  show ?thesis
    unfolding re_search_map_def by (simp only: 1 2 option.case prod.case)
qed

lemma numbers_of_collect:
  "numbers_of xs = collect (map spec_token_value (filter (\<lambda>t. t \<noteq> []) (map strip xs)))"
  by (induction xs) (simp_all add: spec_token_value_def split: option.splits sum.splits)

lemma parse_lines_acc:
  "parse_lines ls rows = (case parse_lines ls [] of Inl e \<Rightarrow> Inl e | Inr rs \<Rightarrow> Inr (rows @ rs))"
proof (induction ls arbitrary: rows)
  case Nil
  show ?case by simp
next
  case (Cons l ls)
  have step: "parse_lines ls (rows @ [ns])
      = (case parse_lines ls [ns] of Inl e \<Rightarrow> Inl e | Inr rs \<Rightarrow> Inr (rows @ rs))" for ns
    by (subst Cons.IH, subst (2) Cons.IH) (simp split: sum.splits)
  show ?case
    by (simp add: Let_def step Cons.IH [of rows] split: sum.splits)
qed

lemma parse_lines_collect:
  "parse_lines ls [] = collect (map spec_row (filter kept_row ls))"
proof (induction ls)
  case Nil
  show ?case by simp
next
  case (Cons l ls)
  have acc: "parse_lines ls [ns]
      = (case parse_lines ls [] of Inl e \<Rightarrow> Inl e | Inr rs \<Rightarrow> Inr (ns # rs))" for ns
    by (subst parse_lines_acc) (cases "parse_lines ls []"; simp)
  show ?case
    by (simp add: Let_def acc Cons.IH kept_row_def spec_data_row_def spec_row_def
        spec_tokens_def numbers_of_collect split: sum.splits)
qed

subsection \<open>Facts about the statistics\<close>

lemma foldl_count_if:
  "foldl (\<lambda>total z. if P z then total + 1 else total) (n::int) zs
     = n + int (length (filter P zs))"
  by (induction zs arbitrary: n) simp_all

lemma count_cell:
  "foldl (\<lambda>total z. if (drop_bit z val) AND 1 \<noteq> 0 then total + 1 else total) (n::int) [0..<9]
     = n + int (length (decode val))"
  unfolding foldl_count_if decode_filter test_bit_iff ..

lemma foldl_add_sum_list:
  "foldl (\<lambda>total x. total + f x) (n::int) xs = n + sum_list (map f xs)"
  by (induction xs arbitrary: n) simp_all

lemma count_blocks_sum:
  "count_blocks heightmap
     = sum_list (map (\<lambda>row. sum_list (map (\<lambda>c. int (length (decode c))) row)) heightmap)"
  unfolding count_blocks_def count_cell foldl_add_sum_list by simp

lemma ground_only_row:
  "sum_list (concat (map (\<lambda>val. if val = 0 then [1::int] else []) row))
     = int (length (filter (\<lambda>c. c = 0) row))"
  by (induction row) simp_all

lemma ground_only_count:
  "sum_list [1::int. row \<leftarrow> heightmap, val \<leftarrow> row, val = 0]
     = int (length (filter (\<lambda>c. c = 0) (concat heightmap)))"
  by (induction heightmap) (simp_all add: ground_only_row)

lemma compute_statistics_Cons:
  "compute_statistics (row0 # rows) =
     Inr \<lparr>total_cells = int (length (row0 # rows)) * int (length row0),
          ground_only = int (length (filter (\<lambda>c. c = 0) (concat (row0 # rows)))),
          elevated = int (length (row0 # rows)) * int (length row0)
            - int (length (filter (\<lambda>c. c = 0) (concat (row0 # rows)))),
          total_blocks = sum_list (map (\<lambda>row. sum_list (map (\<lambda>c. int (length (decode c))) row))
            (row0 # rows))\<rparr>"
  unfolding compute_statistics_def Let_def list.case ground_only_count count_blocks_sum ..

text \<open>
  Claim C4. For every grid with at least one row, the statistics are computed, and
  \<open>total_blocks\<close> is the sum over all cells of the length of the decoded cell,
  \<open>ground_only\<close> is the number of cells that are exactly 0, \<open>ground_only + elevated\<close> is
  \<open>total_cells\<close>, and \<open>total_cells\<close> is the number of rows times the length of the first row.
\<close>

theorem statistics_correct:
  assumes "heightmap \<noteq> []"
  shows "\<exists>st. compute_statistics heightmap = Inr st
    \<and> total_blocks st
        = sum_list (map (\<lambda>row. sum_list (map (\<lambda>c. int (length (decode c))) row)) heightmap)
    \<and> ground_only st = int (length (filter (\<lambda>c. c = 0) (concat heightmap)))
    \<and> ground_only st + elevated st = total_cells st
    \<and> total_cells st = int (length heightmap) * int (length (hd heightmap))"
proof -
  from assms obtain row0 rows where "heightmap = row0 # rows"
    by (cases heightmap) auto
  then show ?thesis
    by (simp add: compute_statistics_Cons del: concat.simps)
qed

theorem statistics_correct_witness:
  "\<exists>st. compute_statistics [[0, 15], [63, 59]] = Inr st
    \<and> total_blocks st = 15 \<and> ground_only st = 1
    \<and> ground_only st + elevated st = total_cells st \<and> total_cells st = 4"
proof -
  have ne: "[[0, 15], [63, 59 :: int]] \<noteq> []"
    by simp
  have d: "decode 0 = []" "decode 15 = [0, 1, 2, 3]" "decode 63 = [0, 1, 2, 3, 4, 5]"
    "decode 59 = [0, 1, 3, 4, 5]"
    unfolding decode_def by code_simp+
  from statistics_correct [OF ne] show ?thesis
    by (simp add: d)
qed

subsection \<open>Facts about the conversion\<close>

lemma convert_to_json_Nil: "convert_to_json [] out fs = (Inl IndexError, fs)"
  by (simp add: convert_to_json_def compute_statistics_def)

lemma convert_to_json_no_columns:
  "convert_to_json ([] # rows) out fs = (Inl ZeroDivisionError, fs)"
  by (simp add: convert_to_json_def compute_statistics_Cons print_statistics_def
      del: concat.simps)

lemma write_map_data_Cons:
  "write_map_data (row0 # rows) out fs =
    (Inr (), fs(out \<mapsto> json_dumps (JDict
       [(''name'', JStr ''Ant Attack Original''),
        (''width'', JInt (int (length row0))),
        (''height'', JInt (int (length (row0 # rows)))),
        (''maxLevels'', JInt 9),
        (''heightMap'', JList (map (\<lambda>row. JList (map JInt row)) (row0 # rows))),
        (''blocks'', JList []),
        (''ramps'', JList []),
        (''createdAt'', JStr ''2025-01-01T00:00:00Z'')])))"
  by (simp add: write_map_data_def map_data_def del: list.map length_Cons)

lemma convert_to_json_writes:
  assumes "row0 \<noteq> []"
  shows "convert_to_json (row0 # rows) out fs = write_map_data (row0 # rows) out fs"
proof -
  have "int (length (row0 # rows)) * int (length row0) \<noteq> 0"
    using assms by simp
  then show ?thesis
    by (simp add: convert_to_json_def compute_statistics_Cons print_statistics_def
        del: concat.simps list.map length_Cons)
qed

lemma convert_to_json_Cons:
  "convert_to_json (row0 # rows) out fs =
     (if row0 = [] then (Inl ZeroDivisionError, fs) else write_map_data (row0 # rows) out fs)"
  by (simp add: convert_to_json_no_columns convert_to_json_writes)

lemma iso8601_createdAt: "iso8601_utc ''2025-01-01T00:00:00Z''"
  by (simp add: iso8601_utc_def isdigit_def)

text \<open>
  Claim C7, as the code has it. A grid with at least one row whose first row has no columns has
  \<open>total_cells = 0\<close>: the statistics are computed and printing them divides by zero. A grid
  with no rows fails earlier, at \<^verbatim>\<open>heightmap[0]\<close>, with an \<^verbatim>\<open>IndexError\<close>. Nothing is written
  in either case.
\<close>

theorem zero_cells_errors:
  "(heightmap \<noteq> [] \<and> hd heightmap = [] \<longrightarrow>
      (\<exists>st. compute_statistics heightmap = Inr st \<and> total_cells st = 0
         \<and> print_statistics st = Inl ZeroDivisionError)
      \<and> convert_to_json heightmap out fs = (Inl ZeroDivisionError, fs))
   \<and> (heightmap = [] \<longrightarrow>
      compute_statistics heightmap = Inl IndexError
      \<and> convert_to_json heightmap out fs = (Inl IndexError, fs))"
proof (cases heightmap)
  case Nil
  then show ?thesis
    by (simp add: convert_to_json_Nil compute_statistics_def)
next
  case (Cons row0 rows)
  then show ?thesis
    by (auto simp: convert_to_json_no_columns compute_statistics_Cons print_statistics_def
        simp del: concat.simps)
qed

theorem zero_cells_errors_witness:
  "convert_to_json [[]] output_file Map.empty = (Inl ZeroDivisionError, Map.empty)
   \<and> convert_to_json [] output_file Map.empty = (Inl IndexError, Map.empty)"
  using zero_cells_errors [of "[[]]" output_file Map.empty]
    zero_cells_errors [of "[]" output_file Map.empty]
  by simp

text \<open>
  The claim C7 as it is stated fails on the grid with no rows: the failure is an
  \<^verbatim>\<open>IndexError\<close>, not a division error.
\<close>

theorem empty_grid_not_division_error:
  "compute_statistics [] = Inl IndexError
   \<and> fst (convert_to_json [] output_file Map.empty) \<noteq> Inl ZeroDivisionError"
  by (simp add: convert_to_json_Nil compute_statistics_def)

subsection \<open>Failures of the parser\<close>

lemma parse_scad_text_span:
  assumes "re_search_map content = Some span"
  shows "parse_scad_text content
    = collect (map spec_row (filter kept_row (split_on CHR 0x0A span)))"
  using assms by (simp add: parse_scad_text_def parse_lines_collect)

lemma main_parse_error:
  assumes "fs scad_file = Some content" and "parse_scad_text content = Inl e"
  shows "parse_scad_map fs scad_file = Inl e \<and> main fs = (Inl e, fs)"
  using assms by (simp add: main_def parse_scad_map_def)

lemma collect_Inl_mem: "collect xs = Inl e \<Longrightarrow> Inl e \<in> set xs"
  by (induction xs) (auto split: sum.splits)

lemma collect_fails: "Inl e \<in> set xs \<Longrightarrow> \<exists>e'. collect xs = Inl e'"
  by (induction xs) (auto split: sum.splits)

lemma spec_token_value_error:
  "spec_token_value t = Inl e \<Longrightarrow> e = InvalidLiteral t \<and> py_int t = None"
  by (auto simp: spec_token_value_def split: option.splits)

lemma spec_row_error:
  assumes "spec_row l = Inl e"
  shows "\<exists>t. e = InvalidLiteral t \<and> py_int t = None"
proof -
  from assms have "Inl e \<in> set (map spec_token_value (spec_tokens l))"
    unfolding spec_row_def by (rule collect_Inl_mem)
  then obtain t where "spec_token_value t = Inl e" by auto
  from spec_token_value_error [OF this] show ?thesis by blast
qed

lemma split_on_Nil: "split_on sep [] = [[]]"
  by (simp add: split_on.simps)

text \<open>
  Claim C5. When the text of the input file does not contain \<^verbatim>\<open>map=[\<close> followed later by
  \<^verbatim>\<open>];\<close>, parsing fails with the error of line 22 and \<^verbatim>\<open>main\<close> leaves every file as it was.
\<close>

theorem missing_markers_abort:
  assumes "fs scad_file = Some content"
    and "\<not> (\<exists>pre span post. content = pre @ ''map=['' @ span @ ''];'' @ post)"
  shows "parse_scad_map fs scad_file = Inl MapNotFound \<and> main fs = (Inl MapNotFound, fs)"
proof -
  from assms(2) have "re_search_map content = None"
    by (simp only: re_search_map_None_iff not_False_eq_True)
  then have "parse_scad_text content = Inl MapNotFound"
    by (simp add: parse_scad_text_def)
  from main_parse_error [of fs content MapNotFound, OF assms(1) this] show ?thesis .
qed

theorem missing_markers_abort_witness:
  "main [scad_file \<mapsto> ''map=[\<newline>[0,15],\<newline>[63,59]\<newline>]'']
     = (Inl MapNotFound, [scad_file \<mapsto> ''map=[\<newline>[0,15],\<newline>[63,59]\<newline>]''])"
proof -
  let ?content = "''map=[\<newline>[0,15],\<newline>[63,59]\<newline>]''"
  have stored: "[scad_file \<mapsto> ?content] scad_file = Some ?content"
    by simp
  have "re_search_map ?content = None"
    by code_simp
  then have absent: "\<not> (\<exists>pre span post. ?content = pre @ ''map=['' @ span @ ''];'' @ post)"
    using re_search_map_None_iff [of ?content] by blast
  from missing_markers_abort [of "[scad_file \<mapsto> ?content]" ?content, OF stored absent] show ?thesis
    by simp
qed

text \<open>
  Claim C6. When a line of the span is a data row and one of its tokens, trimmed, is not empty
  and is no integer literal, parsing fails with the error of \<^verbatim>\<open>int()\<close> on a token that is
  no integer literal, and \<^verbatim>\<open>main\<close> leaves every file as it was.
\<close>

theorem invalid_token_aborts:
  assumes "fs scad_file = Some content"
    and "re_search_map content = Some span"
    and "line \<in> set (split_on CHR 0x0A span)"
    and "startswith (strip line) ''[''"
    and "tok \<in> set (split_on CHR '','' (strip_chars ''[],'' (strip line)))"
    and "strip tok \<noteq> []"
    and "py_int (strip tok) = None"
  shows "\<exists>t. py_int t = None
    \<and> parse_scad_map fs scad_file = Inl (InvalidLiteral t)
    \<and> main fs = (Inl (InvalidLiteral t), fs)"
proof -
  have "strip_chars ''[],'' (strip line) \<noteq> []"
  proof
    assume "strip_chars ''[],'' (strip line) = []"
    with assms(5) have "tok = []" by (simp add: split_on_Nil)
    then have "strip tok = []" by (simp add: strip_def strip_with_def)
    with assms(6) show False by simp
  qed
  with assms(4) have kept: "kept_row line"
    by (simp add: kept_row_def spec_data_row_def)
  from assms(5,6) have "strip tok \<in> set (spec_tokens line)"
    by (simp add: spec_tokens_def)
  moreover from assms(7) have "spec_token_value (strip tok) = Inl (InvalidLiteral (strip tok))"
    by (simp add: spec_token_value_def)
  ultimately have "Inl (InvalidLiteral (strip tok)) \<in> set (map spec_token_value (spec_tokens line))"
    by force
  from collect_fails [OF this] obtain e where "spec_row line = Inl e"
    by (auto simp: spec_row_def)
  with kept assms(3)
  have "Inl e \<in> set (map spec_row (filter kept_row (split_on CHR 0x0A span)))"
    by force
  from collect_fails [OF this] obtain e' where
    e': "collect (map spec_row (filter kept_row (split_on CHR 0x0A span))) = Inl e'"
    by blast
  from collect_Inl_mem [OF this] obtain l where "spec_row l = Inl e'"
    by auto
  from spec_row_error [OF this] obtain t where t: "e' = InvalidLiteral t" "py_int t = None"
    by blast
  from e' have "parse_scad_text content = Inl e'"
    by (simp add: parse_scad_text_span [OF assms(2)])
  from main_parse_error [of fs content e', OF assms(1) this] t show ?thesis
    by blast
qed

theorem invalid_token_aborts_witness:
  "\<exists>t. py_int t = None
    \<and> parse_scad_map [scad_file \<mapsto> ''map=[\<newline>[1,x,3]\<newline>];''] scad_file = Inl (InvalidLiteral t)
    \<and> main [scad_file \<mapsto> ''map=[\<newline>[1,x,3]\<newline>];'']
        = (Inl (InvalidLiteral t), [scad_file \<mapsto> ''map=[\<newline>[1,x,3]\<newline>];''])"
proof -
  let ?content = "''map=[\<newline>[1,x,3]\<newline>];''"
  have 1: "[scad_file \<mapsto> ?content] scad_file = Some ?content"
    by simp
  have 2: "re_search_map ?content = Some ''\<newline>[1,x,3]\<newline>''"
    by code_simp
  have 3: "''[1,x,3]'' \<in> set (split_on CHR 0x0A ''\<newline>[1,x,3]\<newline>'')"
    by code_simp
  have 4: "startswith (strip ''[1,x,3]'') ''[''"
    by code_simp
  have 5: "''x'' \<in> set (split_on CHR '','' (strip_chars ''[],'' (strip ''[1,x,3]'')))"
    by code_simp
  have 6: "strip ''x'' \<noteq> []"
    by code_simp
  have 7: "py_int (strip ''x'') = None"
    by code_simp
  from invalid_token_aborts [of "[scad_file \<mapsto> ?content]" ?content, OF 1 2 3 4 5 6 7]
  show ?thesis .
qed

subsection \<open>The rows of the grid\<close>

lemma spec_parse_span:
  assumes "re_search_map content = Some span"
  shows "spec_parse content
    = collect (map spec_row (filter spec_data_row (split_on CHR 0x0A span)))"
  using assms by (simp add: spec_parse_def)

text \<open>
  Claim C2, as the code has it. Let the text be \<open>pre @ ''map=['' @ span @ ''];'' @ post\<close>, with
  this the first \<^verbatim>\<open>map=[\<close> of the text and this the first \<^verbatim>\<open>];\<close> after it. The parser goes
  through the lines of \<open>span\<close> in order. A line is a data row iff, trimmed, it starts with an
  opening bracket; a data row with nothing left once its leading and trailing brackets and
  commas are stripped is skipped, like the lines that are no data rows; every other data row
  is split at the commas and each token that is not empty when trimmed is read as an integer,
  which gives one row of the grid. Where no data row is skipped, this is the parser of the
  description. For the span of the example the grid is \<open>[[0, 15], [63, 59]]\<close>.
\<close>

theorem parse_scad_text_rows:
  assumes "content = pre @ ''map=['' @ span @ ''];'' @ post"
    and "\<not> occurs ''map=['' (pre @ ''map='')"
    and "\<not> occurs ''];'' (span @ '']'')"
  shows "parse_scad_text content
      = collect (map spec_row (filter kept_row (split_on CHR 0x0A span)))
    \<and> (filter kept_row (split_on CHR 0x0A span) = filter spec_data_row (split_on CHR 0x0A span)
        \<longrightarrow> parse_scad_text content = spec_parse content)
    \<and> (span = ''\<newline>[0,15],\<newline>[63,59]\<newline>''
        \<longrightarrow> parse_scad_text content = Inr [[0, 15], [63, 59]])"
proof -
  have found: "re_search_map content = Some span"
    unfolding assms(1) using assms(2,3) by (rule re_search_map_at)
  have rows: "parse_scad_text content
      = collect (map spec_row (filter kept_row (split_on CHR 0x0A span)))"
    using found by (rule parse_scad_text_span)
  have example: "collect (map spec_row (filter kept_row
      (split_on CHR 0x0A ''\<newline>[0,15],\<newline>[63,59]\<newline>''))) = Inr [[0, 15], [63, 59]]"
    by code_simp
  from rows example spec_parse_span [OF found] show ?thesis
    by simp
qed

theorem parse_scad_text_rows_witness:
  "parse_scad_text ''map=[\<newline>[0,15],\<newline>[63,59]\<newline>];'' = Inr [[0, 15], [63, 59]]"
proof -
  have 1: "''map=[\<newline>[0,15],\<newline>[63,59]\<newline>];''
      = [] @ ''map=['' @ ''\<newline>[0,15],\<newline>[63,59]\<newline>'' @ ''];'' @ []"
    by simp
  have 2: "\<not> occurs ''map=['' ([] @ ''map='')"
    by code_simp
  have 3: "\<not> occurs ''];'' (''\<newline>[0,15],\<newline>[63,59]\<newline>'' @ '']'')"
    by code_simp
  from parse_scad_text_rows [OF 1 2 3] show ?thesis
    by blast
qed

text \<open>
  The claim C2 as it is stated fails on a data row of bare brackets: the line \<^verbatim>\<open>[]\<close> starts
  with an opening bracket, so the description makes it a row (with no tokens, an empty row),
  and the code skips it.
\<close>

theorem bare_brackets_row_skipped:
  "parse_scad_text ''map=[\<newline>[]\<newline>];'' = Inr []
   \<and> spec_parse ''map=[\<newline>[]\<newline>];'' = Inr [[]]"
  by code_simp

text \<open>
  Claim C9. A data row with only whitespace between its brackets passes the test of line 34
  (the text left after stripping brackets and commas is a space) and has no tokens: the parser
  returns an empty row for it.
\<close>

theorem parse_blank_row:
  "parse_scad_text ''map=[\<newline>[ ]\<newline>];'' = Inr [[]]"
  by code_simp

text \<open>
  Claim C10. The parser checks neither the range of the values nor the shape of the grid: it
  returns a grid with a negative value, a value above 511 and rows of different lengths.
\<close>

theorem parser_no_validation:
  "parse_scad_text ''map=[\<newline>[-5,600],\<newline>[7]\<newline>];'' = Inr [[- 5, 600], [7]]
   \<and> \<not> valid_codes [[- 5, 600], [7]]
   \<and> \<not> rectangular [[- 5, 600], [7]]"
  by code_simp

subsection \<open>Facts about printing and reading integers\<close>

lemma of_char_digit: "k < 10 \<Longrightarrow> (of_char (char_of (48 + k :: nat)) :: nat) = 48 + k"
  by (simp add: of_char_of)

lemma isdigit_char_of: "k < 10 \<Longrightarrow> isdigit (char_of (48 + k :: nat))"
  by (simp add: isdigit_def of_char_digit)

lemma digit_value_char_of: "k < 10 \<Longrightarrow> digit_value (char_of (48 + k :: nat)) = int k"
  by (simp add: digit_value_def of_char_digit)

lemma char_of_zero_iff: "k < 10 \<Longrightarrow> (char_of (48 + k :: nat) = CHR ''0'') = (k = 0)"
proof -
  assume k: "k < 10"
  have "(char_of (48 + k) = CHR ''0'')
      = ((of_char (char_of (48 + k)) :: nat) = of_char CHR ''0'')"
    by (simp only: of_char_eq_iff)
  also have "\<dots> = (k = 0)"
    using k by (simp add: of_char_digit)
  finally show ?thesis .
qed

lemma show_nat_small: "n < 10 \<Longrightarrow> show_nat n = [char_of (48 + n)]"
  by (simp add: show_nat.simps)

lemma show_nat_large:
  "\<not> n < 10 \<Longrightarrow> show_nat n = show_nat (n div 10) @ [char_of (48 + n mod 10)]"
  by (subst show_nat.simps) simp

lemma show_nat_nonempty: "show_nat n \<noteq> []"
  by (cases "n < 10") (simp_all add: show_nat_small show_nat_large)

lemma show_nat_digits: "list_all isdigit (show_nat n)"
proof (induction n rule: show_nat.induct)
  case (1 n)
  show ?case
  proof (cases "n < 10")
    case True
    then show ?thesis by (simp add: show_nat_small isdigit_char_of)
  next
    case False
    with "1" show ?thesis by (simp add: show_nat_large isdigit_char_of)
  qed
qed

lemma read_digits_snoc: "read_digits (ds @ [d]) = 10 * read_digits ds + digit_value d"
  by (simp add: read_digits_def)

lemma read_digits_show_nat: "read_digits (show_nat n) = int n"
proof (induction n rule: show_nat.induct)
  case (1 n)
  show ?case
  proof (cases "n < 10")
    case True
    then show ?thesis by (simp add: show_nat_small read_digits_def digit_value_char_of)
  next
    case False
    with "1" have "read_digits (show_nat (n div 10)) = int (n div 10)"
      by simp
    with False show ?thesis
      by (simp add: show_nat_large read_digits_snoc digit_value_char_of zdiv_int zmod_int)
  qed
qed

lemma hd_show_nat_zero: "hd (show_nat n) = CHR ''0'' \<Longrightarrow> n = 0"
proof (induction n rule: show_nat.induct)
  case (1 n)
  show ?case
  proof (cases "n < 10")
    case True
    with "1.prems" show ?thesis by (simp add: show_nat_small char_of_zero_iff)
  next
    case False
    with "1.prems" have "hd (show_nat (n div 10)) = CHR ''0''"
      by (simp add: show_nat_large show_nat_nonempty)
    with "1.IH" False have "n div 10 = 0" by simp
    with False show ?thesis by simp
  qed
qed

lemma canonical_show_nat: "canonical (show_nat n)"
proof (cases "hd (show_nat n) = CHR ''0''")
  case True
  then have "n = 0" by (rule hd_show_nat_zero)
  then show ?thesis by (simp add: canonical_def show_nat_small)
next
  case False
  then show ?thesis by (simp add: canonical_def show_nat_nonempty)
qed

lemma takeWhile_digits:
  "list_all isdigit ds \<Longrightarrow> follows_value s \<Longrightarrow> takeWhile isdigit (ds @ s) = ds"
  by (induction ds) (auto simp: follows_value_def split: list.splits)

lemma dropWhile_digits:
  "list_all isdigit ds \<Longrightarrow> follows_value s \<Longrightarrow> dropWhile isdigit (ds @ s) = s"
  by (induction ds) (auto simp: follows_value_def split: list.splits)

lemma follows_value_ends: "follows_value s \<Longrightarrow> ends_integer s"
  by (auto simp: follows_value_def ends_integer_def split: list.splits)

lemma isdigit_not_special:
  assumes "isdigit c"
  shows "\<not> is_ws c" "c \<noteq> CHR ''{''" "c \<noteq> CHR ''}''" "c \<noteq> CHR ''[''" "c \<noteq> CHR '']''"
    "c \<noteq> CHR '',''" "c \<noteq> CHR '':''" "c \<noteq> CHR 0x22" "c \<noteq> CHR ''-''"
  using assms by (auto simp: isdigit_def is_ws_def)

lemma tokenize_show_nat:
  assumes "follows_value s"
  shows "tokenize (show_nat n @ s) = map_option (Cons (TInt (int n))) (tokenize s)"
proof -
  obtain d ds where dds: "show_nat n = d # ds"
    using show_nat_nonempty [of n] by (cases "show_nat n") auto
  with show_nat_digits [of n] have d: "isdigit d" and ds: "list_all isdigit ds"
    by simp_all
  have tw: "takeWhile isdigit (ds @ s) = ds" and dw: "dropWhile isdigit (ds @ s) = s"
    using ds assms by (simp_all add: takeWhile_digits dropWhile_digits)
  have can: "canonical (d # ds)" and val: "read_digits (d # ds) = int n"
    using canonical_show_nat [of n] read_digits_show_nat [of n] dds by simp_all
  show ?thesis
    unfolding dds
    by (simp add: isdigit_not_special [OF d] d tw dw can val follows_value_ends [OF assms])
qed

lemma tokenize_show_int:
  assumes "follows_value s"
  shows "tokenize (show_int i @ s) = map_option (Cons (TInt i)) (tokenize s)"
proof (cases "i < 0")
  case False
  then show ?thesis
    by (simp add: show_int_def tokenize_show_nat [OF assms])
next
  case True
  have tw: "takeWhile isdigit (show_nat (nat (- i)) @ s) = show_nat (nat (- i))"
    and dw: "dropWhile isdigit (show_nat (nat (- i)) @ s) = s"
    using show_nat_digits assms by (simp_all add: takeWhile_digits dropWhile_digits)
  from True show ?thesis
    by (simp add: show_int_def is_ws_def tw dw canonical_show_nat read_digits_show_nat
        follows_value_ends [OF assms])
qed

subsection \<open>The tokens of the serialized text\<close>

lemma tokenize_spaces: "tokenize (replicate n CHR '' '' @ s) = tokenize s"
  by (induction n) (simp_all add: is_ws_def)

lemma tokenize_newline_indent: "tokenize (newline_indent level @ s) = tokenize s"
  by (simp add: newline_indent_def is_ws_def tokenize_spaces)

lemma follows_newline_indent: "follows_value (newline_indent level @ s)"
  by (simp add: newline_indent_def follows_value_def ends_integer_def isdigit_def)

lemma follows_comma: "follows_value (CHR '','' # s)"
  by (simp add: follows_value_def ends_integer_def isdigit_def)

lemma escape_plain: "plain_char c \<Longrightarrow> escape_char c = [c]"
  by (auto simp: plain_char_def escape_char_def)

lemma concat_escape_plain: "list_all plain_char s \<Longrightarrow> concat (map escape_char s) = s"
  by (induction s) (simp_all add: escape_plain)

lemma plain_no_quote: "list_all plain_char s \<Longrightarrow> list_all (\<lambda>x. x \<noteq> CHR 0x22) s"
  by (induction s) (simp_all add: plain_char_def)

lemma takeWhile_until:
  "list_all (\<lambda>x. x \<noteq> c) s \<Longrightarrow> takeWhile (\<lambda>x. x \<noteq> c) (s @ c # rest) = s"
  by (induction s) simp_all

lemma dropWhile_until:
  "list_all (\<lambda>x. x \<noteq> c) s \<Longrightarrow> dropWhile (\<lambda>x. x \<noteq> c) (s @ c # rest) = c # rest"
  by (induction s) simp_all

lemma tokenize_encode_string:
  assumes "list_all plain_char s"
  shows "tokenize (encode_string s @ rest) = map_option (Cons (TStr s)) (tokenize rest)"
proof -
  have enc: "encode_string s @ rest = CHR 0x22 # (s @ CHR 0x22 # rest)"
    by (simp add: encode_string_def concat_escape_plain [OF assms])
  note nq = plain_no_quote [OF assms]
  show ?thesis
    unfolding enc
    by (simp add: is_ws_def takeWhile_until [OF nq] dropWhile_until [OF nq] assms)
qed

lemma tokenize_join:
  assumes "xs \<noteq> []"
    and "\<And>x s. x \<in> set xs \<Longrightarrow> follows_value s \<Longrightarrow>
      tokenize (f x @ s) = map_option ((@) (g x)) (tokenize s)"
  shows "tokenize (join (CHR '','' # newline_indent k) (map f xs) @ newline_indent l @ s)
    = map_option ((@) (join [Comma] (map g xs))) (tokenize s)"
  using assms
proof (induction xs rule: list_nonempty_induct)
  case (single x)
  have "tokenize (f x @ newline_indent l @ s) = map_option ((@) (g x)) (tokenize s)"
    using single [of x "newline_indent l @ s"]
    by (simp add: follows_newline_indent tokenize_newline_indent)
  then show ?case by simp
next
  case (cons x xs)
  have rest: "tokenize (join (CHR '','' # newline_indent k) (map f xs) @ newline_indent l @ s)
    = map_option ((@) (join [Comma] (map g xs))) (tokenize s)"
    using cons.prems by (intro cons.IH) simp
  obtain y ys where xs: "xs = y # ys"
    using cons.hyps by (cases xs) auto
  have "tokenize (f x @ CHR '','' # newline_indent k
        @ join (CHR '','' # newline_indent k) (map f xs) @ newline_indent l @ s)
      = map_option ((@) (g x)) (tokenize (CHR '','' # newline_indent k
        @ join (CHR '','' # newline_indent k) (map f xs) @ newline_indent l @ s))"
    by (rule cons.prems) (simp_all add: follows_comma)
  also have "\<dots> = map_option ((@) (g x)) (map_option (Cons Comma)
      (map_option ((@) (join [Comma] (map g xs))) (tokenize s)))"
    by (simp add: is_ws_def tokenize_newline_indent rest)
  finally show ?case
    by (simp add: xs option.map_comp comp_def)
qed

lemma tokenize_encode:
  "plain_strings v \<Longrightarrow> follows_value s \<Longrightarrow>
     tokenize (encode level v @ s) = map_option ((@) (toks v)) (tokenize s)"
proof (induction v arbitrary: level s)
  case (JInt i)
  then show ?case by (simp add: tokenize_show_int)
next
  case (JStr x)
  then show ?case by (simp add: tokenize_encode_string)
next
  case (JList vs)
  show ?case
  proof (cases "vs = []")
    case True
    then show ?thesis by (simp add: is_ws_def option.map_comp comp_def)
  next
    case False
    have elems: "tokenize (join (CHR '','' # newline_indent (Suc level)) (map (encode (Suc level)) vs)
          @ newline_indent level @ CHR '']'' # s)
        = map_option ((@) (join [Comma] (map toks vs))) (tokenize (CHR '']'' # s))"
    proof (rule tokenize_join [OF False])
      fix x s'
      assume "x \<in> set vs" and "follows_value s'"
      with JList.IH [of x s' "Suc level"] JList.prems(1)
      show "tokenize (encode (Suc level) x @ s') = map_option ((@) (toks x)) (tokenize s')"
        by (simp add: list_all_iff)
    qed
    from False show ?thesis
      by (simp add: is_ws_def tokenize_newline_indent elems option.map_comp comp_def)
  qed
next
  case (JDict kvs)
  show ?case
  proof (cases "kvs = []")
    case True
    then show ?thesis by (simp add: is_ws_def option.map_comp comp_def)
  next
    case False
    let ?f = "\<lambda>kv. encode_string (fst kv) @ CHR '':'' # CHR '' '' # encode (Suc level) (snd kv)"
    let ?g = "\<lambda>kv. TStr (fst kv) # Colon # toks (snd kv)"
    have elems: "tokenize (join (CHR '','' # newline_indent (Suc level)) (map ?f kvs)
          @ newline_indent level @ CHR ''}'' # s)
        = map_option ((@) (join [Comma] (map ?g kvs))) (tokenize (CHR ''}'' # s))"
    proof (rule tokenize_join [OF False])
      fix kv s'
      assume kv: "kv \<in> set kvs" and s': "follows_value s'"
      from kv JDict.prems(1) have key: "list_all plain_char (fst kv)"
        and val: "plain_strings (snd kv)"
        by (simp_all add: list_all_iff)
      have "snd kv \<in> Basic_BNFs.snds kv"
        by (cases kv) simp
      from JDict.IH [OF kv this val s', of "Suc level"]
      show "tokenize (?f kv @ s') = map_option ((@) (?g kv)) (tokenize s')"
        by (cases "tokenize s'")
          (simp_all add: tokenize_encode_string [OF key] is_ws_def option.map_comp comp_def)
    qed
    from False show ?thesis
      by (simp add: is_ws_def tokenize_newline_indent elems option.map_comp comp_def)
  qed
qed

lemma tokenize_json_dumps:
  "plain_strings v \<Longrightarrow> tokenize (json_dumps v) = Some (toks v)"
  using tokenize_encode [of v "[]" 0] by (simp add: json_dumps_def follows_value_def)

subsection \<open>Parsing the tokens of a value\<close>

lemma join_Cons: "join sep (x # xs) = (if xs = [] then x else x @ sep @ join sep xs)"
  by (cases xs) simp_all

lemma toks_head: "\<exists>t ts. toks v = t # ts \<and> t \<noteq> RBracket \<and> t \<noteq> RBrace"
  by (cases v) simp_all

lemma join_toks_head:
  assumes "vs \<noteq> []"
  shows "\<exists>t ts. join [Comma] (map toks vs) = t # ts \<and> t \<noteq> RBracket"
proof -
  from assms obtain v vs' where vs: "vs = v # vs'"
    by (cases vs) auto
  obtain t ts where "toks v = t # ts" "t \<noteq> RBracket"
    using toks_head [of v] by blast
  then show ?thesis
    by (simp add: vs join_Cons)
qed

lemma parse_value_list:
  assumes "vs \<noteq> []"
    and "parse_elements n (join [Comma] (map toks vs) @ RBracket # rest) = Some (vs, rest)"
  shows "parse_value (Suc n) (LBracket # join [Comma] (map toks vs) @ RBracket # rest)
    = Some (JList vs, rest)"
proof -
  obtain t ts where j: "join [Comma] (map toks vs) = t # ts" and t: "t \<noteq> RBracket"
    using join_toks_head [OF assms(1)] by blast
  from assms(2) have "parse_elements n (t # ts @ RBracket # rest) = Some (vs, rest)"
    by (simp add: j)
  with t show ?thesis
    unfolding j by (cases t) simp_all
qed

lemma parse_value_dict:
  assumes "kvs \<noteq> []"
    and "parse_members n
      (join [Comma] (map (\<lambda>kv. TStr (fst kv) # Colon # toks (snd kv)) kvs) @ RBrace # rest)
      = Some (kvs, rest)"
  shows "parse_value (Suc n)
      (LBrace # join [Comma] (map (\<lambda>kv. TStr (fst kv) # Colon # toks (snd kv)) kvs)
        @ RBrace # rest)
    = Some (JDict kvs, rest)"
proof -
  from assms(1) obtain kv kvs' where kvs: "kvs = kv # kvs'"
    by (cases kvs) auto
  have "\<exists>ts. join [Comma] (map (\<lambda>kv. TStr (fst kv) # Colon # toks (snd kv)) kvs)
      = TStr (fst kv) # ts"
    by (simp add: kvs join_Cons)
  then obtain ts where j: "join [Comma] (map (\<lambda>kv. TStr (fst kv) # Colon # toks (snd kv)) kvs)
      = TStr (fst kv) # ts"
    by blast
  from assms(2) show ?thesis
    unfolding j by simp
qed

lemma parse_toks:
  "depth v \<le> n \<Longrightarrow> parse_value n (toks v @ rest) = Some (v, rest)"
  "vs \<noteq> [] \<Longrightarrow> depth_list vs \<le> n \<Longrightarrow>
     parse_elements n (join [Comma] (map toks vs) @ RBracket # rest) = Some (vs, rest)"
  "kvs \<noteq> [] \<Longrightarrow> depth_members kvs \<le> n \<Longrightarrow>
     parse_members n
       (join [Comma] (map (\<lambda>kv. TStr (fst kv) # Colon # toks (snd kv)) kvs) @ RBrace # rest)
     = Some (kvs, rest)"
proof (induction v and vs and kvs arbitrary: n rest and n rest and n rest
    rule: depth_depth_list_depth_members.induct)
  case (1 i)
  then show ?case by (cases n) simp_all
next
  case (2 s)
  then show ?case by (cases n) simp_all
next
  case (3 vs)
  from "3.prems" obtain m where n: "n = Suc m" and m: "depth_list vs \<le> m"
    by (cases n) simp_all
  show ?case
  proof (cases "vs = []")
    case True
    then show ?thesis by (simp add: n)
  next
    case False
    from "3.IH" [OF False m]
    have "parse_elements m (join [Comma] (map toks vs) @ RBracket # rest) = Some (vs, rest)" .
    from parse_value_list [OF False this] show ?thesis
      by (simp add: n)
  qed
next
  case (4 kvs)
  from "4.prems" obtain m where n: "n = Suc m" and m: "depth_members kvs \<le> m"
    by (cases n) simp_all
  show ?case
  proof (cases "kvs = []")
    case True
    then show ?thesis by (simp add: n)
  next
    case False
    from "4.IH" [OF False m]
    have "parse_members m
      (join [Comma] (map (\<lambda>kv. TStr (fst kv) # Colon # toks (snd kv)) kvs) @ RBrace # rest)
      = Some (kvs, rest)" .
    from parse_value_dict [OF False this] show ?thesis
      by (simp add: n)
  qed
next
  case 5
  then show ?case by simp
next
  case (6 v vs)
  from "6.prems"(2) obtain m where n: "n = Suc m" and v: "depth v \<le> m"
    and vs: "depth_list vs \<le> m"
    by (cases n) simp_all
  show ?case
  proof (cases "vs = []")
    case True
    with "6.IH"(1) [OF v, of "RBracket # rest"] show ?thesis
      by (simp add: n)
  next
    case False
    from "6.IH"(1) [OF v] "6.IH"(2) [OF False vs, of rest] False show ?thesis
      by (simp add: n join_Cons)
  qed
next
  case 7
  then show ?case by simp
next
  case (8 kv kvs)
  from "8.prems"(2) obtain m where n: "n = Suc m" and v: "depth (snd kv) \<le> m"
    and kvs: "depth_members kvs \<le> m"
    by (cases n) simp_all
  show ?case
  proof (cases "kvs = []")
    case True
    with "8.IH"(1) [OF v, of "RBrace # rest"] show ?thesis
      by (simp add: n)
  next
    case False
    from "8.IH"(1) [OF v] "8.IH"(2) [OF False kvs, of rest] False show ?thesis
      by (simp add: n join_Cons)
  qed
qed

lemma depth_le_toks:
  "depth v \<le> length (toks v)"
  "depth_list vs \<le> Suc (length (join [Comma] (map toks vs)))"
  "depth_members kvs
     \<le> Suc (length (join [Comma] (map (\<lambda>kv. TStr (fst kv) # Colon # toks (snd kv)) kvs)))"
  by (induction v and vs and kvs rule: depth_depth_list_depth_members.induct)
    (simp_all add: join_Cons)

lemma json_loads_dumps:
  assumes "plain_strings v"
  shows "json_loads (json_dumps v) = Some v"
proof -
  have "parse_value (length (toks v)) (toks v @ []) = Some (v, [])"
    by (rule parse_toks(1)) (rule depth_le_toks(1))
  then show ?thesis
    by (simp add: json_loads_def tokenize_json_dumps [OF assms])
qed

subsection \<open>Reading the document back\<close>

lemma all_some_map_Some: "all_some (map (\<lambda>x. Some (f x)) xs) = Some (map f xs)"
  by (induction xs) simp_all

lemma row_of_json_row: "row_of_json (JList (map JInt row)) = Some row"
  using all_some_map_Some [of "\<lambda>x. x" row]
  by (simp add: row_of_json_def int_of_json_def comp_def)

lemma grid_of_json_grid:
  "grid_of_json (JList (map (\<lambda>row. JList (map JInt row)) grid)) = Some grid"
  using all_some_map_Some [of "\<lambda>x. x" grid]
  by (simp add: grid_of_json_def row_of_json_row comp_def)

lemma plain_strings_grid: "plain_strings (JList (map (\<lambda>row. JList (map JInt row)) grid))"
  by (simp add: list_all_iff)

lemma read_height_map_document:
  "read_height_map (json_dumps (JDict
       [(''name'', JStr ''Ant Attack Original''),
        (''width'', JInt w),
        (''height'', JInt h),
        (''maxLevels'', JInt 9),
        (''heightMap'', JList (map (\<lambda>row. JList (map JInt row)) grid)),
        (''blocks'', JList []),
        (''ramps'', JList []),
        (''createdAt'', JStr ''2025-01-01T00:00:00Z'')])) = Some grid"
proof -
  have "plain_strings (JDict
       [(''name'', JStr ''Ant Attack Original''),
        (''width'', JInt w),
        (''height'', JInt h),
        (''maxLevels'', JInt 9),
        (''heightMap'', JList (map (\<lambda>row. JList (map JInt row)) grid)),
        (''blocks'', JList []),
        (''ramps'', JList []),
        (''createdAt'', JStr ''2025-01-01T00:00:00Z'')])"
    using plain_strings_grid [of grid] by (simp add: plain_char_def)
  from json_loads_dumps [OF this] show ?thesis
    by (simp add: read_height_map_def grid_of_json_grid)
qed

text \<open>
  Claim C3. For every grid with at least one row, lines 68 to 81 write a text, and reading
  the \<open>heightMap\<close> of this text back gives the grid itself, with its values and the order of
  its rows. It is the text that \<^verbatim>\<open>convert_to_json\<close> writes when the first row has a column.
\<close>

theorem height_map_round_trip:
  assumes "heightmap \<noteq> []"
  shows "\<exists>text. write_map_data heightmap out fs = (Inr (), fs(out \<mapsto> text))
    \<and> read_height_map text = Some heightmap
    \<and> (hd heightmap \<noteq> [] \<longrightarrow>
        convert_to_json heightmap out fs = (Inr (), fs(out \<mapsto> text)))"
proof -
  from assms obtain row0 rows where hm: "heightmap = row0 # rows"
    by (cases heightmap) auto
  from write_map_data_Cons [of row0 rows out fs] convert_to_json_Cons [of row0 rows out fs]
    read_height_map_document [of "int (length row0)" "int (length (row0 # rows))" "row0 # rows"]
  show ?thesis
    unfolding hm by (intro exI conjI impI) (assumption, assumption, simp)
qed

theorem height_map_round_trip_witness:
  "\<exists>text. convert_to_json [[0, 15], [63, 59]] output_file Map.empty
      = (Inr (), [output_file \<mapsto> text])
    \<and> read_height_map text = Some [[0, 15], [63, 59]]"
proof -
  have 1: "[[0, 15], [63, 59 :: int]] \<noteq> []"
    by simp
  from height_map_round_trip [OF 1, of output_file Map.empty] show ?thesis
    by auto
qed

subsection \<open>The written document\<close>

lemma plain_strings_document:
  "plain_strings (JDict
       [(''name'', JStr ''Ant Attack Original''),
        (''width'', JInt w),
        (''height'', JInt h),
        (''maxLevels'', JInt 9),
        (''heightMap'', JList (map (\<lambda>row. JList (map JInt row)) grid)),
        (''blocks'', JList []),
        (''ramps'', JList []),
        (''createdAt'', JStr ''2025-01-01T00:00:00Z'')])"
  using plain_strings_grid [of grid] by (simp add: plain_char_def)

text \<open>
  Claim C8. For every grid with at least one row, lines 68 to 81 write a text, and this text
  is the serialization of a document that a reader of JSON gets back from it: the object with
  the keys \<open>name\<close> (a string), \<open>width\<close> (the length of the first row), \<open>height\<close> (the
  number of rows), \<open>maxLevels\<close> (9), \<open>heightMap\<close> (the grid, row by row), \<open>blocks\<close> and
  \<open>ramps\<close> (empty) and \<open>createdAt\<close> (a timestamp in ISO 8601 form), in this order and no
  others. \<^verbatim>\<open>convert_to_json\<close> reaches these lines, and so writes this text, when the first row
  has a column; when it has none, printing the statistics has failed before.
\<close>

theorem document_shape:
  assumes "heightmap \<noteq> []"
  shows "\<exists>doc text.
      doc = JDict
       [(''name'', JStr ''Ant Attack Original''),
        (''width'', JInt (int (length (hd heightmap)))),
        (''height'', JInt (int (length heightmap))),
        (''maxLevels'', JInt 9),
        (''heightMap'', JList (map (\<lambda>row. JList (map JInt row)) heightmap)),
        (''blocks'', JList []),
        (''ramps'', JList []),
        (''createdAt'', JStr ''2025-01-01T00:00:00Z'')]
    \<and> text = json_dumps doc
    \<and> write_map_data heightmap out fs = (Inr (), fs(out \<mapsto> text))
    \<and> json_loads text = Some doc
    \<and> iso8601_utc ''2025-01-01T00:00:00Z''
    \<and> convert_to_json heightmap out fs =
        (if hd heightmap = [] then (Inl ZeroDivisionError, fs)
         else write_map_data heightmap out fs)"
proof -
  from assms obtain row0 rows where hm: "heightmap = row0 # rows"
    by (cases heightmap) auto
  let ?doc = "JDict
       [(''name'', JStr ''Ant Attack Original''),
        (''width'', JInt (int (length row0))),
        (''height'', JInt (int (length (row0 # rows)))),
        (''maxLevels'', JInt 9),
        (''heightMap'', JList (map (\<lambda>row. JList (map JInt row)) (row0 # rows))),
        (''blocks'', JList []),
        (''ramps'', JList []),
        (''createdAt'', JStr ''2025-01-01T00:00:00Z'')]"
  have written: "write_map_data (row0 # rows) out fs = (Inr (), fs(out \<mapsto> json_dumps ?doc))"
    by (rule write_map_data_Cons)
  have "plain_strings ?doc"
    by (rule plain_strings_document)
  then have read: "json_loads (json_dumps ?doc) = Some ?doc"
    by (rule json_loads_dumps)
  have whole: "convert_to_json (row0 # rows) out fs =
      (if row0 = [] then (Inl ZeroDivisionError, fs) else write_map_data (row0 # rows) out fs)"
    by (rule convert_to_json_Cons)
  have "hd (row0 # rows) = row0"
    by simp
  with written read whole iso8601_createdAt show ?thesis
    unfolding hm by (intro exI conjI) (simp_all only: refl)
qed

theorem document_shape_witness:
  "\<exists>text. convert_to_json (replicate 128 (replicate 128 0)) output_file Map.empty
      = (Inr (), [output_file \<mapsto> text])
    \<and> json_loads text = Some (JDict
       [(''name'', JStr ''Ant Attack Original''),
        (''width'', JInt 128),
        (''height'', JInt 128),
        (''maxLevels'', JInt 9),
        (''heightMap'', JList (replicate 128 (JList (replicate 128 (JInt 0))))),
        (''blocks'', JList []),
        (''ramps'', JList []),
        (''createdAt'', JStr ''2025-01-01T00:00:00Z'')])"
proof -
  have 1: "replicate 128 (replicate 128 (0::int)) \<noteq> []"
    by simp
  from document_shape [OF 1, of output_file Map.empty] show ?thesis
    by (auto simp: map_replicate)
qed

end
